theory Spec2Isabelle
  imports Main
begin

section \<open>Python string primitives used by the formatter\<close>

text \<open>
  Source texts are modelled as \<open>string\<close>, a list of 8-bit characters read as the code
  points 0 to 255 of a Python \<open>str\<close>.  On that range \<open>str.isspace\<close> (the set used by
  \<open>strip()\<close> and \<open>lstrip()\<close> without argument) holds exactly for the twelve code
  points below, and \<open>str.lower\<close> moves the ASCII capitals and the Latin-1 capitals
  (0xC0 to 0xDE without the multiplication sign 0xD7) up by 32.
\<close>

definition LF :: char where
  "LF = CHR 0x0A"

definition CR :: char where
  "CR = CHR 0x0D"

definition is_space :: "char \<Rightarrow> bool" where
  "is_space c = (c = CHR 0x09 \<or> c = CHR 0x0A \<or> c = CHR 0x0B \<or> c = CHR 0x0C \<or> c = CHR 0x0D
     \<or> c = CHR 0x1C \<or> c = CHR 0x1D \<or> c = CHR 0x1E \<or> c = CHR 0x1F \<or> c = CHR 0x20
     \<or> c = CHR 0x85 \<or> c = CHR 0xA0)"

definition is_space_tab :: "char \<Rightarrow> bool" where
  "is_space_tab c = (c = CHR 0x20 \<or> c = CHR 0x09)"

definition lower_char :: "char \<Rightarrow> char" where
  "lower_char c = (let n = (of_char c :: nat) in
     if (65 \<le> n \<and> n \<le> 90) \<or> (192 \<le> n \<and> n \<le> 222 \<and> n \<noteq> 215)
     then char_of (n + 32) else c)"

text \<open>\<open>s.lower()\<close>\<close>
definition lower :: "string \<Rightarrow> string" where
  "lower s = map lower_char s"

text \<open>\<open>s.lstrip()\<close>\<close>
definition lstrip :: "string \<Rightarrow> string" where
  "lstrip s = dropWhile is_space s"

text \<open>\<open>s.strip()\<close>\<close>
definition strip :: "string \<Rightarrow> string" where
  "strip s = rev (dropWhile is_space (rev (dropWhile is_space s)))"

text \<open>\<open>s.rstrip(" \t")\<close>\<close>
definition rstrip_space_tab :: "string \<Rightarrow> string" where
  "rstrip_space_tab s = rev (dropWhile is_space_tab (rev s))"

text \<open>\<open>s.startswith(p)\<close>\<close>
definition startswith :: "string \<Rightarrow> string \<Rightarrow> bool" where
  "startswith s p = (take (length p) s = p)"

text \<open>\<open>text.replace("\r\n", "\n")\<close>: left to right, non-overlapping.\<close>
fun replace_crlf :: "string \<Rightarrow> string" where
  "replace_crlf [] = []"
| "replace_crlf [c] = [c]"
| "replace_crlf (c # d # cs) =
     (if c = CR \<and> d = LF then LF # replace_crlf cs else c # replace_crlf (d # cs))"

text \<open>\<open>text.replace("\r", "\n")\<close>\<close>
definition replace_cr :: "string \<Rightarrow> string" where
  "replace_cr s = map (\<lambda>c. if c = CR then LF else c) s"

definition normalize_newlines :: "string \<Rightarrow> string" where
  "normalize_newlines text = replace_cr (replace_crlf text)"

text \<open>\<open>text.split("\n")\<close>: always at least one piece.\<close>
fun split_nl :: "string \<Rightarrow> string list" where
  "split_nl [] = [[]]"
| "split_nl (c # cs) =
     (if c = LF then [] # split_nl cs
      else (let r = split_nl cs in (c # hd r) # tl r))"

text \<open>\<open>"\n".join(lines)\<close>\<close>
fun join_nl :: "string list \<Rightarrow> string" where
  "join_nl [] = []"
| "join_nl [l] = l"
| "join_nl (l # m # ls) = l @ LF # join_nl (m # ls)"

section \<open>The lexical brace scanner\<close>

definition INDENT :: string where
  "INDENT = ''  ''"

text \<open>
  The \<open>while i < n\<close> loop of \<open>strip_comments_for_braces\<close>, with its local variables as
  arguments.  \<open>line[i]\<close> is read under the loop guard \<open>i < n\<close>; \<open>nxt\<close> is a string of
  length at most one, empty at the end of the line.  \<open>break\<close> and the end of the loop
  return the variables as they stand; not returning is \<open>None\<close>.
\<close>

partial_function (option) strip_loop ::
  "string \<Rightarrow> nat \<Rightarrow> bool \<Rightarrow> char option \<Rightarrow> bool \<Rightarrow> string
     \<Rightarrow> (string \<times> bool \<times> char option \<times> bool) option" where
  "strip_loop line i in_block_comment in_string escape out =
    (if i < length line then
       (let ch = line ! i;
            nxt = (if i + 1 < length line then [line ! (i + 1)] else [])
        in
        if in_block_comment then
          (if ch = CHR ''*'' \<and> nxt = ''/''
           then strip_loop line (i + 2) False in_string escape out
           else strip_loop line (i + 1) in_block_comment in_string escape out)
        else if in_string \<noteq> None then
          (if escape then strip_loop line (i + 1) in_block_comment in_string False (out @ [ch])
           else if ch = CHR 0x5C
             then strip_loop line (i + 1) in_block_comment in_string True (out @ [ch])
           else if Some ch = in_string
             then strip_loop line (i + 1) in_block_comment None escape (out @ [ch])
           else strip_loop line (i + 1) in_block_comment in_string escape (out @ [ch]))
        else if ch = CHR 0x27 \<or> ch = CHR 0x22
          then strip_loop line (i + 1) in_block_comment (Some ch) escape (out @ [ch])
        else if ch = CHR ''/'' \<and> nxt = ''/''
          then Some (out, in_block_comment, in_string, escape)
        else if ch = CHR ''/'' \<and> nxt = ''*''
          then strip_loop line (i + 2) True in_string escape out
        else strip_loop line (i + 1) in_block_comment in_string escape (out @ [ch]))
     else Some (out, in_block_comment, in_string, escape))"

declare strip_loop.simps [code]

text \<open>The function returns \<open>"".join(out), in_block_comment\<close>; the string state is local.\<close>
definition strip_comments_for_braces :: "string \<Rightarrow> bool \<Rightarrow> (string \<times> bool) option" where
  "strip_comments_for_braces line in_block_comment =
    (case strip_loop line 0 in_block_comment None False [] of
       None \<Rightarrow> None
     | Some (out, bc, in_string, escape) \<Rightarrow> Some (out, bc))"

definition line_brace_stats :: "string \<Rightarrow> bool \<Rightarrow> (int \<times> int \<times> bool) option" where
  "line_brace_stats line in_block_comment =
    (case strip_comments_for_braces line in_block_comment of
       None \<Rightarrow> None
     | Some (code, next_in_block_comment) \<Rightarrow>
         (let stripped = lstrip code;
              leading_close = int (length (takeWhile (\<lambda>ch. ch = CHR ''}'') stripped));
              delta = int (count_list code CHR ''{'') - int (count_list code CHR ''}'')
          in Some (delta, leading_close, next_in_block_comment)))"

section \<open>Blank-line collapsing\<close>

text \<open>The \<open>for raw in lines\<close> loop of \<open>collapse_blank_lines\<close>, with \<open>last_blank\<close> and \<open>out\<close>.\<close>
fun collapse_loop :: "bool \<Rightarrow> string list \<Rightarrow> string list \<Rightarrow> string list" where
  "collapse_loop last_blank out [] = out"
| "collapse_loop last_blank out (raw # lines) =
     (if raw = [] then
        (if last_blank then collapse_loop last_blank out lines
         else collapse_loop True (out @ [[]]) lines)
      else collapse_loop False (out @ [raw]) lines)"

text \<open>\<open>while out and out[-1] == "": out.pop()\<close>\<close>
function pop_blank :: "string list \<Rightarrow> string list" where
  "pop_blank out = (if out \<noteq> [] \<and> last out = [] then pop_blank (butlast out) else out)"
  by pat_completeness auto
termination
  by (relation "measure length") auto

declare pop_blank.simps [simp del]

definition collapse_blank_lines :: "string list \<Rightarrow> string list" where
  "collapse_blank_lines lines = pop_blank (collapse_loop True [] lines)"

section \<open>The indentation state machine\<close>

text \<open>The variables of the \<open>for original in lines\<close> loop of \<open>format_frag_text\<close>.\<close>
record fstate =
  out :: "string list"
  indent_level :: int
  in_preset :: bool
  in_block_comment :: bool

text \<open>\<open>INDENT * k\<close>: the empty string for \<open>k \<le> 0\<close>.\<close>
definition indent_str :: "int \<Rightarrow> string" where
  "indent_str k = concat (replicate (nat k) INDENT)"

text \<open>One pass of the loop body; \<open>continue\<close> ends the pass with the state as it stands.\<close>
definition format_step :: "fstate \<Rightarrow> string \<Rightarrow> fstate option" where
  "format_step st original =
    (let line = rstrip_space_tab original;
         stripped = strip line
     in
     if stripped = [] then Some (st\<lparr>out := out st @ [[]]\<rparr>)
     else
       (let lower = lower stripped;
            is_directive = startswith stripped ''#''
        in
        if is_directive then
          Some (st\<lparr>out := out st @ [stripped],
                  in_preset := (if startswith lower ''#preset '' then True
                                else if lower = ''#endpreset'' then False
                                else in_preset st)\<rparr>)
        else if in_preset st then Some (st\<lparr>out := out st @ [lstrip line]\<rparr>)
        else
          (case line_brace_stats line (in_block_comment st) of
             None \<Rightarrow> None
           | Some (delta, leading_close, next_in_block_comment) \<Rightarrow>
               (let effective_indent = max (indent_level st - leading_close) 0;
                    formatted = indent_str effective_indent @ lstrip line
                in Some (st\<lparr>out := out st @ [formatted],
                           indent_level := max (indent_level st + delta) 0,
                           in_block_comment := next_in_block_comment\<rparr>)))))"

fun format_loop :: "fstate \<Rightarrow> string list \<Rightarrow> fstate option" where
  "format_loop st [] = Some st"
| "format_loop st (original # lines) =
     (case format_step st original of
        None \<Rightarrow> None
      | Some st' \<Rightarrow> format_loop st' lines)"

definition init_state :: fstate where
  "init_state = \<lparr>out = [], indent_level = 0, in_preset = False, in_block_comment = False\<rparr>"

definition format_frag_text :: "string \<Rightarrow> string option" where
  "format_frag_text text =
    (let text' = normalize_newlines text;
         lines = split_nl text'
     in case format_loop init_state lines of
          None \<Rightarrow> None
        | Some st \<Rightarrow> Some (join_nl (collapse_blank_lines (out st)) @ [LF]))"

section \<open>The scanner as a recursion over the rest of the line\<close>

text \<open>
  \<open>scan\<close> follows the loop on the characters from position \<open>i\<close> on and returns what the
  loop appends to \<open>out\<close> together with the final variables.  It is used in proofs only:
  \<open>strip_loop_scan\<close> shows that the loop returns and computes it.
\<close>

definition emit :: "char \<Rightarrow> string \<times> bool \<times> char option \<times> bool
    \<Rightarrow> string \<times> bool \<times> char option \<times> bool" where
  "emit ch r = (ch # fst r, snd r)"

function scan :: "bool \<Rightarrow> char option \<Rightarrow> bool \<Rightarrow> string \<Rightarrow> string \<times> bool \<times> char option \<times> bool" where
  "scan bc s e [] = ([], bc, s, e)"
| "scan bc s e (ch # rest) =
    (if bc then
       (if ch = CHR ''*'' \<and> take 1 rest = ''/'' then scan False s e (tl rest)
        else scan bc s e rest)
     else if s \<noteq> None then
       (if e then emit ch (scan bc s False rest)
        else if ch = CHR 0x5C then emit ch (scan bc s True rest)
        else if Some ch = s then emit ch (scan bc None e rest)
        else emit ch (scan bc s e rest))
     else if ch = CHR 0x27 \<or> ch = CHR 0x22 then emit ch (scan bc (Some ch) e rest)
     else if ch = CHR ''/'' \<and> take 1 rest = ''/'' then ([], bc, s, e)
     else if ch = CHR ''/'' \<and> take 1 rest = ''*'' then scan True s e (tl rest)
     else emit ch (scan bc s e rest))"
  by pat_completeness auto
termination
  by (relation "measure (\<lambda>(bc, s, e, cs). length cs)") auto

text \<open>What \<open>line_brace_stats\<close> returns, in terms of \<open>scan\<close>.\<close>
definition brace_stats :: "string \<Rightarrow> bool \<Rightarrow> int \<times> int \<times> bool" where
  "brace_stats line bc =
    (let r = scan bc None False line; code = fst r in
     (int (count_list code CHR ''{'') - int (count_list code CHR ''}''),
      int (length (takeWhile (\<lambda>ch. ch = CHR ''}'') (lstrip code))),
      fst (snd r)))"

text \<open>The state after one pass of the loop body, and the line that pass appends.\<close>
definition step :: "fstate \<Rightarrow> string \<Rightarrow> fstate" where
  "step st original = the (format_step st original)"

definition emitted :: "fstate \<Rightarrow> string \<Rightarrow> string" where
  "emitted st original = last (out (step st original))"

text \<open>The lines a run of the loop appends, one per input line.\<close>
fun emits :: "fstate \<Rightarrow> string list \<Rightarrow> string list" where
  "emits st [] = []"
| "emits st (l # ls) = emitted st l # emits (step st l) ls"

text \<open>A list of lines that the loop, started in \<open>st\<close>, reproduces line by line.\<close>
fun fixed :: "fstate \<Rightarrow> string list \<Rightarrow> bool" where
  "fixed st [] = True"
| "fixed st (y # ys) = (emitted st y = y \<and> fixed (step st y) ys)"

text \<open>What \<open>collapse_loop\<close> appends to its accumulator.\<close>
fun squeeze :: "bool \<Rightarrow> string list \<Rightarrow> string list" where
  "squeeze lb [] = []"
| "squeeze lb (x # xs) =
     (if x = [] then (if lb then squeeze lb xs else [] # squeeze True xs)
      else x # squeeze False xs)"

text \<open>No empty line follows an empty line, nor the start when \<open>lb\<close> holds.\<close>
fun tidy :: "bool \<Rightarrow> string list \<Rightarrow> bool" where
  "tidy lb [] = True"
| "tidy lb (x # xs) = (if x = [] then \<not> lb \<and> tidy True xs else tidy False xs)"

text \<open>A line without line-break characters.\<close>
definition plain :: "string \<Rightarrow> bool" where
  "plain l = (LF \<notin> set l \<and> CR \<notin> set l)"


text \<open>The pass of the loop body for this line reaches the call of \<open>line_brace_stats\<close>.\<close>
definition scanned :: "fstate \<Rightarrow> string \<Rightarrow> bool" where
  "scanned st original =
    (strip (rstrip_space_tab original) \<noteq> []
     \<and> \<not> startswith (strip (rstrip_space_tab original)) ''#''
     \<and> \<not> in_preset st)"

text \<open>None of these lines, processed in turn from \<open>st\<close>, reaches that call.\<close>
fun unscanned :: "fstate \<Rightarrow> string list \<Rightarrow> bool" where
  "unscanned st [] = True"
| "unscanned st (l # ls) =
     (\<not> scanned st l \<and>
      (case format_step st l of None \<Rightarrow> False | Some st' \<Rightarrow> unscanned st' ls))"

section \<open>Properties of the string primitives\<close>

lemma is_space_tab_space: "is_space_tab c \<Longrightarrow> is_space c"
  by (auto simp: is_space_tab_def is_space_def)

lemma lstrip_idem: "lstrip (lstrip s) = lstrip s"
  by (simp add: lstrip_def)

lemma lstrip_ws_append: "list_all is_space ws \<Longrightarrow> lstrip (ws @ s) = lstrip s"
  by (induction ws) (auto simp: lstrip_def)

lemma lstrip_decomp: "\<exists>ws. list_all is_space ws \<and> s = ws @ lstrip s"
proof -
  have "list_all is_space (takeWhile is_space s)"
    by (auto simp: list_all_iff dest: set_takeWhileD)
  then have "list_all is_space (takeWhile is_space s) \<and> s = takeWhile is_space s @ lstrip s"
    by (simp add: lstrip_def)
  then show ?thesis ..
qed

lemma lstrip_Nil_iff: "lstrip s = [] \<longleftrightarrow> list_all is_space s"
  by (simp add: lstrip_def dropWhile_eq_Nil_conv list_all_iff)


lemma strip_lstrip: "strip s = rev (dropWhile is_space (rev (lstrip s)))"
  by (simp add: strip_def lstrip_def)

lemma strip_of_lstrip: "strip (lstrip s) = strip s"
  by (simp add: strip_def lstrip_def)

lemma strip_ws_append: "list_all is_space ws \<Longrightarrow> strip (ws @ s) = strip s"
  using lstrip_ws_append [of ws s] by (simp add: strip_def lstrip_def)

lemma rdrop_fix: "s = [] \<or> \<not> P (last s) \<Longrightarrow> rev (dropWhile P (rev s)) = s"
  by (cases s rule: rev_cases) auto

lemma rdrop_last: "rev (dropWhile P (rev s)) \<noteq> [] \<Longrightarrow> \<not> P (last (rev (dropWhile P (rev s))))"
  using hd_dropWhile [of P "rev s"] by (simp add: last_rev)

lemma lstrip_hd: "lstrip s \<noteq> [] \<Longrightarrow> \<not> is_space (hd (lstrip s))"
  unfolding lstrip_def by (rule hd_dropWhile)

lemma rdrop_prefix: "s = rev (dropWhile P (rev s)) @ rev (takeWhile P (rev s))"
proof -
  have "rev (dropWhile P (rev s)) @ rev (takeWhile P (rev s))
      = rev (takeWhile P (rev s) @ dropWhile P (rev s))" by (simp only: rev_append)
  also have "\<dots> = rev (rev s)" by (simp only: takeWhile_dropWhile_id)
  finally show ?thesis by simp
qed

lemma strip_hd: assumes "strip s \<noteq> []" shows "\<not> is_space (hd (strip s))"
proof -
  have n: "lstrip s \<noteq> []" using assms by (auto simp: strip_lstrip)
  have "lstrip s = strip s @ rev (takeWhile is_space (rev (lstrip s)))"
    unfolding strip_lstrip by (rule rdrop_prefix)
  then have "hd (lstrip s) = hd (strip s @ rev (takeWhile is_space (rev (lstrip s))))" by simp
  then have "hd (lstrip s) = hd (strip s)" using assms by simp
  then show ?thesis using lstrip_hd [OF n] by simp
qed

lemma strip_Nil_lstrip: "strip s = [] \<longleftrightarrow> lstrip s = []"
proof
  assume a: "strip s = []"
  show "lstrip s = []"
  proof (rule ccontr)
    assume n: "lstrip s \<noteq> []"
    from a have "\<forall>x\<in>set (lstrip s). is_space x"
      by (simp add: strip_lstrip dropWhile_eq_Nil_conv)
    then have "is_space (hd (lstrip s))" using n by simp
    then show False using lstrip_hd [OF n] by simp
  qed
next
  assume "lstrip s = []" then show "strip s = []" by (simp add: strip_lstrip)
qed

lemma strip_Nil_iff: "strip s = [] \<longleftrightarrow> list_all is_space s"
  by (simp add: strip_Nil_lstrip lstrip_Nil_iff)

lemma strip_last: "strip s \<noteq> [] \<Longrightarrow> \<not> is_space (last (strip s))"
  unfolding strip_def by (rule rdrop_last)

lemma lstrip_fix: "s = [] \<or> \<not> is_space (hd s) \<Longrightarrow> lstrip s = s"
  by (cases s) (auto simp: lstrip_def)

lemma strip_strip: "strip (strip s) = strip s"
proof (cases "strip s = []")
  case True
  have "strip [] = []" by (simp add: strip_def)
  then show ?thesis by (simp add: True)
next
  case False
  have "lstrip (strip s) = strip s" using strip_hd [OF False] by (simp add: lstrip_fix)
  then have "strip (strip s) = rev (dropWhile is_space (rev (strip s)))" by (simp add: strip_lstrip)
  also have "\<dots> = strip s" using strip_last [OF False] by (simp add: rdrop_fix)
  finally show ?thesis .
qed

lemma rstrip_fix: "s = [] \<or> \<not> is_space_tab (last s) \<Longrightarrow> rstrip_space_tab s = s"
  unfolding rstrip_space_tab_def by (rule rdrop_fix)

lemma rstrip_last: "rstrip_space_tab s \<noteq> [] \<Longrightarrow> \<not> is_space_tab (last (rstrip_space_tab s))"
  unfolding rstrip_space_tab_def by (rule rdrop_last)

lemma rstrip_strip: "rstrip_space_tab (strip s) = strip s"
  using strip_last [of s] is_space_tab_space by (intro rstrip_fix) auto

lemma lstrip_last: assumes "lstrip s \<noteq> []" shows "last (lstrip s) = last s"
proof -
  have "last s = last (takeWhile is_space s @ dropWhile is_space s)" by simp
  also have "\<dots> = last (dropWhile is_space s)"
    using assms unfolding lstrip_def by (rule last_appendR)
  finally show ?thesis by (simp add: lstrip_def)
qed

lemma rstrip_ws_lstrip:
  assumes "rstrip_space_tab s = s" "lstrip s \<noteq> []"
  shows "rstrip_space_tab (ws @ lstrip s) = ws @ lstrip s"
proof -
  have "s \<noteq> []" using assms(2) by (auto simp: lstrip_def)
  then have "\<not> is_space_tab (last s)" using rstrip_last [of s] assms(1) by simp
  then have "\<not> is_space_tab (last (ws @ lstrip s))" using assms(2) by (simp add: lstrip_last)
  then show ?thesis by (intro rstrip_fix) simp
qed

lemma rstrip_idem: "rstrip_space_tab (rstrip_space_tab s) = rstrip_space_tab s"
  using rstrip_last [of s] by (intro rstrip_fix) auto

section \<open>The scanner loop returns\<close>

lemma nxt_drop:
  "i < length line \<Longrightarrow>
   (if i + 1 < length line then [line ! (i + 1)] else []) = take 1 (drop (Suc i) line)"
  by (auto simp: take_Suc_conv_app_nth hd_drop_conv_nth take_Suc)

lemma strip_loop_scan:
  "strip_loop line i bc s e acc =
     Some (acc @ fst (scan bc s e (drop i line)), snd (scan bc s e (drop i line)))"
proof (induction "length line - i" arbitrary: i bc s e acc rule: less_induct)
  case less
  show ?case
  proof (cases "i < length line")
    case False
    then show ?thesis by (subst strip_loop.simps) simp
  next
    case True
    then have d: "drop i line = line ! i # drop (Suc i) line"
      by (simp add: Cons_nth_drop_Suc)
    have tl: "tl (drop (Suc i) line) = drop (Suc (Suc i)) line"
      by (simp add: drop_Suc tl_drop)
    have ih1: "strip_loop line (Suc i) bc' s' e' acc' =
        Some (acc' @ fst (scan bc' s' e' (drop (Suc i) line)),
              snd (scan bc' s' e' (drop (Suc i) line)))" for bc' s' e' acc'
      using less [of "Suc i"] True by simp
    have ih2: "strip_loop line (Suc (Suc i)) bc' s' e' acc' =
        Some (acc' @ fst (scan bc' s' e' (drop (Suc (Suc i)) line)),
              snd (scan bc' s' e' (drop (Suc (Suc i)) line)))" for bc' s' e' acc'
      using less [of "Suc (Suc i)"] True by simp
    show ?thesis
      apply (subst strip_loop.simps)
      apply (simp only: d scan.simps nxt_drop [OF True] Let_def True if_True tl)
      apply (simp add: ih1 ih2 emit_def tl)
      done
  qed
qed

section \<open>The brace statistics of a line\<close>

lemma strip_comments_scan:
  "strip_comments_for_braces line bc =
     Some (fst (scan bc None False line), fst (snd (scan bc None False line)))"
  by (simp add: strip_comments_for_braces_def strip_loop_scan split: prod.splits)

lemma line_brace_stats_eq: "line_brace_stats line bc = Some (brace_stats line bc)"
  by (simp add: line_brace_stats_def strip_comments_scan brace_stats_def Let_def)

lemma is_space_not_special:
  "is_space c \<Longrightarrow> c \<noteq> CHR ''*'' \<and> c \<noteq> CHR ''/'' \<and> c \<noteq> CHR 0x27 \<and> c \<noteq> CHR 0x22
     \<and> c \<noteq> CHR ''{'' \<and> c \<noteq> CHR ''}'' \<and> c \<noteq> CHR ''#''"
  by (auto simp: is_space_def)

lemma scan_ws:
  "list_all is_space ws \<Longrightarrow>
   scan bc None False (ws @ rest) =
     (if bc then scan bc None False rest
      else (ws @ fst (scan bc None False rest), snd (scan bc None False rest)))"
proof (induction ws)
  case Nil
  show ?case by simp
next
  case (Cons w ws)
  then have "is_space w" by simp
  from is_space_not_special [OF this] Cons show ?case
    by (cases bc) (simp_all add: emit_def)
qed

lemma count_list_ws: "list_all is_space ws \<Longrightarrow> \<not> is_space c \<Longrightarrow> count_list ws c = 0"
  by (induction ws) auto

lemma brace_not_space: "\<not> is_space CHR ''{''" "\<not> is_space CHR ''}''"
  by (simp_all add: is_space_def)

lemma brace_stats_ws:
  assumes "list_all is_space ws"
  shows "brace_stats (ws @ rest) bc = brace_stats rest bc"
proof (cases bc)
  case True
  then show ?thesis using assms by (simp add: brace_stats_def scan_ws)
next
  case False
  then show ?thesis using assms
    by (simp add: brace_stats_def scan_ws Let_def lstrip_ws_append count_list_ws brace_not_space)
qed

lemma brace_stats_lstrip: "brace_stats (lstrip s) bc = brace_stats s bc"
proof -
  obtain ws where "list_all is_space ws" "s = ws @ lstrip s" using lstrip_decomp by blast
  then show ?thesis using brace_stats_ws [of ws "lstrip s" bc] by simp
qed

lemma indent_str_ws: "list_all is_space (indent_str k)"
  by (simp add: indent_str_def INDENT_def list_all_iff is_space_def)

lemma format_step_Some: "format_step st l = Some (step st l)"
  by (simp add: step_def format_step_def Let_def line_brace_stats_eq split: prod.splits)

section \<open>One pass of the formatting loop\<close>

lemma step_blank:
  "strip (rstrip_space_tab l) = [] \<Longrightarrow> step st l = st\<lparr>out := out st @ [[]]\<rparr>"
  by (simp add: step_def format_step_def)

lemma step_directive:
  "strip (rstrip_space_tab l) \<noteq> [] \<Longrightarrow> startswith (strip (rstrip_space_tab l)) ''#'' \<Longrightarrow>
   step st l = st\<lparr>out := out st @ [strip (rstrip_space_tab l)],
     in_preset := (if startswith (lower (strip (rstrip_space_tab l))) ''#preset '' then True
                   else if lower (strip (rstrip_space_tab l)) = ''#endpreset'' then False
                   else in_preset st)\<rparr>"
  by (simp add: step_def format_step_def Let_def)

lemma step_preset:
  "strip (rstrip_space_tab l) \<noteq> [] \<Longrightarrow> \<not> startswith (strip (rstrip_space_tab l)) ''#'' \<Longrightarrow>
   in_preset st \<Longrightarrow>
   step st l = st\<lparr>out := out st @ [lstrip (rstrip_space_tab l)]\<rparr>"
  by (simp add: step_def format_step_def Let_def)

lemma step_code:
  "strip (rstrip_space_tab l) \<noteq> [] \<Longrightarrow> \<not> startswith (strip (rstrip_space_tab l)) ''#'' \<Longrightarrow>
   \<not> in_preset st \<Longrightarrow>
   step st l = st\<lparr>out := out st @
       [indent_str (max (indent_level st
            - fst (snd (brace_stats (rstrip_space_tab l) (in_block_comment st)))) 0)
        @ lstrip (rstrip_space_tab l)],
     indent_level := max (indent_level st
            + fst (brace_stats (rstrip_space_tab l) (in_block_comment st))) 0,
     in_block_comment := snd (snd (brace_stats (rstrip_space_tab l) (in_block_comment st)))\<rparr>"
  by (simp add: step_def format_step_def Let_def line_brace_stats_eq split: prod.splits)

lemmas step_cases = step_blank step_directive step_preset step_code

lemma step_out: "out (step st l) = out st @ [emitted st l]"
proof -
  have "\<exists>e. out (step st l) = out st @ [e]"
    by (cases "strip (rstrip_space_tab l) = []"; cases "startswith (strip (rstrip_space_tab l)) ''#''";
        cases "in_preset st") (simp_all add: step_cases)
  then show ?thesis by (auto simp: emitted_def)
qed

lemma step_out_update:
  "step (st\<lparr>out := ys\<rparr>) l = (step st l)\<lparr>out := ys @ [emitted st l]\<rparr>"
  by (cases "strip (rstrip_space_tab l) = []"; cases "startswith (strip (rstrip_space_tab l)) ''#''";
      cases "in_preset st") (simp_all add: step_cases emitted_def)

lemma emitted_out_update: "emitted (st\<lparr>out := ys\<rparr>) l = emitted st l"
  by (simp add: emitted_def step_out_update)

lemma step_reformat: "step st (emitted st l) = step st l"
proof -
  let ?L = "rstrip_space_tab l" and ?S = "strip (rstrip_space_tab l)"
  consider (blank) "?S = []"
    | (directive) "?S \<noteq> []" "startswith ?S ''#''"
    | (preset) "?S \<noteq> []" "\<not> startswith ?S ''#''" "in_preset st"
    | (code) "?S \<noteq> []" "\<not> startswith ?S ''#''" "\<not> in_preset st"
    by blast
  then show ?thesis
  proof cases
    case blank
    have e: "emitted st l = []" using blank by (simp add: emitted_def step_blank)
    have "strip (rstrip_space_tab []) = []" by (simp add: strip_def rstrip_space_tab_def)
    then show ?thesis using blank by (simp add: e step_blank)
  next
    case directive
    have e: "emitted st l = ?S" using directive by (simp add: emitted_def step_directive)
    have "strip (rstrip_space_tab ?S) = ?S" by (simp add: rstrip_strip strip_strip)
    then show ?thesis using directive by (simp add: e step_directive)
  next
    case preset
    have n: "lstrip ?L \<noteq> []" using preset(1) by (simp add: strip_Nil_lstrip)
    have e: "emitted st l = lstrip ?L" using preset by (simp add: emitted_def step_preset)
    have r: "rstrip_space_tab (lstrip ?L) = lstrip ?L"
      using rstrip_ws_lstrip [of ?L "[]"] n by (simp add: rstrip_idem)
    show ?thesis using preset
      by (simp add: e step_preset r strip_of_lstrip lstrip_idem)
  next
    case code
    have n: "lstrip ?L \<noteq> []" using code(1) by (simp add: strip_Nil_lstrip)
    define k where "k = max (indent_level st - fst (snd (brace_stats ?L (in_block_comment st)))) 0"
    have e: "emitted st l = indent_str k @ lstrip ?L"
      using code by (simp add: emitted_def step_code k_def)
    have r: "rstrip_space_tab (indent_str k @ lstrip ?L) = indent_str k @ lstrip ?L"
      using rstrip_ws_lstrip [of ?L "indent_str k"] n by (simp add: rstrip_idem)
    have s: "strip (indent_str k @ lstrip ?L) = ?S"
      by (simp add: strip_ws_append indent_str_ws strip_of_lstrip)
    have ls: "lstrip (indent_str k @ lstrip ?L) = lstrip ?L"
      by (simp add: lstrip_ws_append indent_str_ws lstrip_idem)
    have b: "brace_stats (indent_str k @ lstrip ?L) bc = brace_stats ?L bc" for bc
      by (simp add: brace_stats_ws indent_str_ws brace_stats_lstrip)
    have "step st (indent_str k @ lstrip ?L) = step st l"
      using code by (simp add: step_code [of l] step_code [of "indent_str k @ lstrip ?L"] r s ls b)
    then show ?thesis by (simp add: e)
  qed
qed

lemma emitted_reformat: "emitted st (emitted st l) = emitted st l"
  using step_reformat [of st l] by (simp add: emitted_def)

lemma emitted_Nil: "emitted st [] = []"
  by (simp add: emitted_def step_blank strip_def rstrip_space_tab_def)

lemma step_Nil: "step st [] = st\<lparr>out := out st @ [[]]\<rparr>"
  by (simp add: step_blank strip_def rstrip_space_tab_def)

section \<open>The loop over the lines and the blank-line collapse\<close>

lemma format_loop_foldl: "format_loop st ls = Some (foldl step st ls)"
  by (induction ls arbitrary: st) (simp_all add: format_step_Some)

lemma out_foldl: "out (foldl step st ls) = out st @ emits st ls"
  by (induction ls arbitrary: st) (simp_all add: step_out)

lemma fixed_out_update: "fixed (st\<lparr>out := ys\<rparr>) zs = fixed st zs"
  by (induction zs arbitrary: st ys) (simp_all add: step_out_update emitted_out_update)

lemma fixed_emits: "fixed st (emits st ls)"
  by (induction ls arbitrary: st) (simp_all add: emitted_reformat step_reformat)

lemma emits_fixed: "fixed st ys \<Longrightarrow> emits st ys = ys"
  by (induction ys arbitrary: st) simp_all

lemma fixed_append: "fixed st (a @ b) = (fixed st a \<and> fixed (foldl step st a) b)"
  by (induction a arbitrary: st) auto

lemma fixed_blank_Cons: "fixed st ([] # ys) = fixed st ys"
  by (simp add: emitted_Nil step_Nil fixed_out_update)

lemma fixed_snoc_blank: "fixed st ys \<Longrightarrow> fixed st (ys @ [[]])"
  by (simp add: fixed_append emitted_Nil)

lemma collapse_loop_squeeze: "collapse_loop lb acc xs = acc @ squeeze lb xs"
  by (induction xs arbitrary: lb acc) simp_all

lemma pop_blank_eq: "pop_blank xs = rev (dropWhile (\<lambda>x. x = []) (rev xs))"
proof (induction xs rule: pop_blank.induct)
  case (1 xs)
  show ?case
  proof (cases xs rule: rev_cases)
    case Nil
    then show ?thesis by (subst pop_blank.simps) simp
  next
    case (snoc ys y)
    then show ?thesis using 1 by (subst pop_blank.simps) simp
  qed
qed

lemma collapse_eq: "collapse_blank_lines xs = rev (dropWhile (\<lambda>x. x = []) (rev (squeeze True xs)))"
  by (simp add: collapse_blank_lines_def collapse_loop_squeeze pop_blank_eq)

lemma fixed_squeeze: "fixed st ys \<Longrightarrow> fixed st (squeeze lb ys)"
  by (induction ys arbitrary: st lb) (auto simp: fixed_blank_Cons emitted_Nil step_Nil fixed_out_update)

lemma fixed_rdrop: assumes "fixed st ys" shows "fixed st (rev (dropWhile P (rev ys)))"
proof -
  have "fixed st (rev (dropWhile P (rev ys)) @ rev (takeWhile P (rev ys)))"
    using assms rdrop_prefix [of ys P] by simp
  then show ?thesis by (simp only: fixed_append)
qed

lemma fixed_collapse: "fixed st ys \<Longrightarrow> fixed st (collapse_blank_lines ys)"
  by (simp add: collapse_eq fixed_squeeze fixed_rdrop)

lemma tidy_squeeze: "tidy lb (squeeze lb xs)"
  by (induction xs arbitrary: lb) simp_all

lemma tidy_append: "tidy lb (a @ b) \<Longrightarrow> tidy lb a"
  by (induction a arbitrary: lb) (auto split: if_splits)

lemma tidy_rdrop: assumes "tidy lb ys" shows "tidy lb (rev (dropWhile P (rev ys)))"
proof -
  have "tidy lb (rev (dropWhile P (rev ys)) @ rev (takeWhile P (rev ys)))"
    using assms rdrop_prefix [of ys P] by simp
  then show ?thesis by (rule tidy_append)
qed

lemma tidy_collapse: "tidy True (collapse_blank_lines xs)"
  by (simp add: collapse_eq tidy_rdrop tidy_squeeze)

lemma collapse_last: "collapse_blank_lines xs = [] \<or> last (collapse_blank_lines xs) \<noteq> []"
  using rdrop_last [of "\<lambda>x. x = []" "squeeze True xs"] by (auto simp: collapse_eq)


lemma tidy_no_leading: "tidy True z \<Longrightarrow> z \<noteq> [] # b"
  by auto

lemma squeeze_tidy_snoc:
  "tidy lb z \<Longrightarrow>
   squeeze lb (z @ [[]]) = z @ (if (if z = [] then lb else last z = []) then [] else [[]])"
  by (induction z arbitrary: lb) (auto split: if_splits)

lemma collapse_snoc_blank:
  assumes "tidy True z" "z = [] \<or> last z \<noteq> []"
  shows "collapse_blank_lines (z @ [[]]) = z"
proof (cases "z = []")
  case True
  then show ?thesis by (simp add: collapse_eq)
next
  case False
  then have l: "last z \<noteq> []" using assms(2) by simp
  have "squeeze True (z @ [[]]) = z @ [[]]"
    using squeeze_tidy_snoc [OF assms(1)] False l by simp
  then show ?thesis using False l by (simp add: collapse_eq rdrop_fix)
qed

lemma collapse_two_blank: "collapse_blank_lines [[], []] = []"
  by (simp add: collapse_eq)

section \<open>Splitting and joining lines\<close>

lemma LF_CR: "LF \<noteq> CR" "CR \<noteq> LF"
  by (simp_all add: LF_def CR_def)

lemma replace_crlf_id: "CR \<notin> set t \<Longrightarrow> replace_crlf t = t"
  by (induction t rule: replace_crlf.induct) auto

lemma replace_cr_id: "CR \<notin> set t \<Longrightarrow> replace_cr t = t"
  by (induction t) (auto simp: replace_cr_def)

lemma normalize_id: "CR \<notin> set t \<Longrightarrow> normalize_newlines t = t"
  by (simp add: normalize_newlines_def replace_crlf_id replace_cr_id)

lemma normalize_no_CR: "CR \<notin> set (normalize_newlines t)"
  by (auto simp: normalize_newlines_def replace_cr_def LF_CR)

lemma split_nl_nonempty: "split_nl t \<noteq> []"
  by (induction t) (simp_all add: Let_def)


lemma split_nl_append: "LF \<notin> set a \<Longrightarrow> split_nl (a @ LF # rest) = a # split_nl rest"
  by (induction a) (auto simp: Let_def)

lemma split_nl_lines: "l \<in> set (split_nl t) \<Longrightarrow> LF \<notin> set l \<and> set l \<subseteq> set t"
proof (induction t arbitrary: l)
  case Nil
  then show ?case by simp
next
  case (Cons c cs)
  show ?case
  proof (cases "c = LF")
    case True
    then show ?thesis using Cons by auto
  next
    case False
    obtain h r where hr: "split_nl cs = h # r" using split_nl_nonempty [of cs] by (cases "split_nl cs") auto
    then have "l = c # h \<or> l \<in> set r" using Cons.prems False by (simp add: Let_def)
    then show ?thesis
    proof
      assume "l = c # h"
      then show ?thesis using Cons.IH [of h] hr False by auto
    next
      assume "l \<in> set r"
      then show ?thesis using Cons.IH [of l] hr by auto
    qed
  qed
qed

lemma split_nl_plain: "list_all plain (split_nl (normalize_newlines t))"
  using split_nl_lines [of _ "normalize_newlines t"] normalize_no_CR [of t]
  by (auto simp: list_all_iff plain_def)

lemma join_nl_Cons: "ls \<noteq> [] \<Longrightarrow> join_nl (l # ls) = l @ LF # join_nl ls"
  by (cases ls) simp_all

lemma split_join:
  "z \<noteq> [] \<Longrightarrow> list_all plain z \<Longrightarrow> split_nl (join_nl z @ [LF]) = z @ [[]]"
proof (induction z)
  case Nil
  then show ?case by simp
next
  case (Cons l ls)
  then have p: "LF \<notin> set l" by (simp add: plain_def)
  show ?case
  proof (cases "ls = []")
    case True
    then show ?thesis using split_nl_append [OF p, of "[]"] by simp
  next
    case False
    then show ?thesis using Cons split_nl_append [OF p, of "join_nl ls @ [LF]"]
      by (simp add: join_nl_Cons)
  qed
qed

lemma join_no_CR: "list_all plain z \<Longrightarrow> CR \<notin> set (join_nl z @ [LF])"
proof (induction z)
  case Nil
  then show ?case by (simp add: LF_CR)
next
  case (Cons l ls)
  then show ?case by (cases "ls = []") (auto simp: join_nl_Cons plain_def LF_CR)
qed

lemma lines_of_output:
  assumes "list_all plain z"
  shows "split_nl (normalize_newlines (join_nl z @ [LF])) = (if z = [] then [[], []] else z @ [[]])"
proof -
  have n: "normalize_newlines (join_nl z @ [LF]) = join_nl z @ [LF]"
    using join_no_CR [OF assms] by (rule normalize_id)
  show ?thesis using assms by (simp add: n split_join)
qed

lemma space_not_break: "CHR '' '' \<noteq> LF" "CHR '' '' \<noteq> CR" "LF \<noteq> CHR '' ''" "CR \<noteq> CHR '' ''"
  by (simp_all add: LF_def CR_def)

lemma plain_suffix: "plain (a @ b) \<Longrightarrow> plain b"
  by (simp add: plain_def)

lemma plain_dropWhile: "plain s \<Longrightarrow> plain (dropWhile P s)"
  by (auto simp: plain_def dest: set_dropWhileD)

lemma plain_rev: "plain (rev s) = plain s"
  by (simp add: plain_def)

lemma plain_indent: "plain (indent_str k)"
  by (simp add: plain_def indent_str_def INDENT_def space_not_break)

lemma plain_append: "plain a \<Longrightarrow> plain b \<Longrightarrow> plain (a @ b)"
  by (simp add: plain_def)

lemma plain_Nil: "plain []"
  by (simp add: plain_def)

lemma plain_emitted: assumes "plain l" shows "plain (emitted st l)"
proof -
  have L: "plain (rstrip_space_tab l)"
    using assms by (simp add: rstrip_space_tab_def plain_rev plain_dropWhile)
  have S: "plain (strip (rstrip_space_tab l))"
    using L by (simp add: strip_def plain_rev plain_dropWhile)
  have Ls: "plain (lstrip (rstrip_space_tab l))"
    using L by (simp add: lstrip_def plain_dropWhile)
  show ?thesis
    by (cases "strip (rstrip_space_tab l) = []"; cases "startswith (strip (rstrip_space_tab l)) ''#''";
        cases "in_preset st")
       (simp_all add: emitted_def step_cases plain_Nil S Ls plain_append plain_indent)
qed

lemma plain_emits: "list_all plain ls \<Longrightarrow> list_all plain (emits st ls)"
  by (induction ls arbitrary: st) (simp_all add: plain_emitted)

lemma set_squeeze: "set (squeeze lb xs) \<subseteq> set xs"
  by (induction xs arbitrary: lb) auto

lemma set_collapse: "set (collapse_blank_lines xs) \<subseteq> set xs"
proof
  fix x assume "x \<in> set (collapse_blank_lines xs)"
  then have "x \<in> set (dropWhile (\<lambda>x. x = []) (rev (squeeze True xs)))"
    by (simp add: collapse_eq)
  then have "x \<in> set (rev (squeeze True xs))" by (rule set_dropWhileD)
  then show "x \<in> set xs" using set_squeeze [of True xs] by auto
qed

lemma plain_collapse: "list_all plain xs \<Longrightarrow> list_all plain (collapse_blank_lines xs)"
  using set_collapse [of xs] by (auto simp: list_all_iff)

section \<open>The formatter as a function of the lines\<close>

lemma format_frag_text_eq:
  "format_frag_text t =
     Some (join_nl (collapse_blank_lines (emits init_state (split_nl (normalize_newlines t)))) @ [LF])"
  by (simp add: format_frag_text_def format_loop_foldl out_foldl init_state_def)

lemma reformat_lines:
  assumes "fixed init_state z" "tidy True z" "z = [] \<or> last z \<noteq> []" "list_all plain z"
  shows "collapse_blank_lines (emits init_state (split_nl (normalize_newlines (join_nl z @ [LF])))) = z"
proof (cases "z = []")
  case True
  have a: "split_nl (normalize_newlines (join_nl z @ [LF])) = [[], []]"
    using lines_of_output [OF assms(4)] True by simp
  have b: "emits init_state [[], []] = [[], []]" by (simp add: emitted_Nil)
  have "collapse_blank_lines (emits init_state (split_nl (normalize_newlines (join_nl z @ [LF])))) = []"
    by (simp only: a b collapse_two_blank)
  then show ?thesis by (simp only: True)
next
  case False
  have "fixed init_state (z @ [[]])" using assms(1) by (rule fixed_snoc_blank)
  then have "emits init_state (z @ [[]]) = z @ [[]]" by (rule emits_fixed)
  then show ?thesis
    using False assms(4) collapse_snoc_blank [OF assms(2,3)] by (simp add: lines_of_output)
qed

section \<open>Blank lines of the output\<close>





lemma emitted_all_space: assumes "list_all is_space l" shows "emitted st l = []"
proof -
  have "list_all is_space (rstrip_space_tab l)"
    using assms by (auto simp: rstrip_space_tab_def list_all_iff dest: set_dropWhileD)
  then have "strip (rstrip_space_tab l) = []" by (simp add: strip_Nil_iff)
  then show ?thesis by (simp add: emitted_def step_blank)
qed

lemma emits_all_space:
  "list_all (list_all is_space) ls \<Longrightarrow> list_all (\<lambda>x. x = []) (emits st ls)"
  by (induction ls arbitrary: st) (simp_all add: emitted_all_space)

lemma squeeze_all_blank: "list_all (\<lambda>x. x = []) xs \<Longrightarrow> squeeze True xs = []"
  by (induction xs) simp_all

lemma collapse_all_blank: "list_all (\<lambda>x. x = []) xs \<Longrightarrow> collapse_blank_lines xs = []"
  by (simp add: collapse_eq squeeze_all_blank)

lemma is_space_LF: "is_space LF"
  by (simp add: is_space_def LF_def)

lemma replace_crlf_set: "set (replace_crlf t) \<subseteq> set t"
  by (induction t rule: replace_crlf.induct) auto

lemma normalize_all_space:
  assumes "list_all is_space t" shows "list_all is_space (normalize_newlines t)"
proof -
  have "list_all is_space (replace_crlf t)"
    using assms replace_crlf_set [of t] by (auto simp: list_all_iff)
  then show ?thesis
    by (auto simp: normalize_newlines_def replace_cr_def list_all_iff is_space_LF)
qed

lemma split_all_space:
  assumes "list_all is_space t" shows "list_all (list_all is_space) (split_nl t)"
  using assms split_nl_lines [of _ t] by (fastforce simp: list_all_iff)

lemma join_nl_nonempty: "z \<noteq> [] \<Longrightarrow> last z \<noteq> [] \<Longrightarrow> join_nl z \<noteq> []"
  by (cases z; cases "tl z = []") (auto simp: join_nl_Cons)

lemma last_join_nl: "z \<noteq> [] \<Longrightarrow> last z \<noteq> [] \<Longrightarrow> last (join_nl z) = last (last z)"
proof (induction z)
  case Nil
  then show ?case by simp
next
  case (Cons l ls)
  show ?case
  proof (cases "ls = []")
    case True then show ?thesis by simp
  next
    case False
    then have "join_nl ls \<noteq> []" using Cons.prems by (simp add: join_nl_nonempty)
    then show ?thesis using False Cons by (simp add: join_nl_Cons)
  qed
qed

section \<open>The indentation level and runs of empty lines\<close>

lemma level_step: "0 \<le> indent_level st \<Longrightarrow> 0 \<le> indent_level (step st l)"
  by (cases "strip (rstrip_space_tab l) = []"; cases "startswith (strip (rstrip_space_tab l)) ''#''";
      cases "in_preset st") (simp_all add: step_cases)

lemma level_foldl: "0 \<le> indent_level st \<Longrightarrow> 0 \<le> indent_level (foldl step st ls)"
  by (induction ls arbitrary: st) (simp_all add: level_step)

lemma collapse_run:
  "collapse_blank_lines ([c # a] @ replicate (Suc n) [] @ [d # b]) = [c # a, [], d # b]"
proof -
  have "squeeze True (replicate k [] @ [d # b]) = [d # b]" for k
    by (induction k) simp_all
  then show ?thesis by (simp add: collapse_eq)
qed

section \<open>Directive lines\<close>

lemma startswith_nonempty: "startswith s (c # p) \<Longrightarrow> s \<noteq> []"
  by (auto simp: startswith_def)

section \<open>Preset blocks\<close>




section \<open>Comments and strings in the scanner\<close>

lemma scan_comment_braces:
  "list_all (\<lambda>c. c = CHR ''{'' \<or> c = CHR ''}'') bs \<Longrightarrow>
   scan True s e (bs @ rest) = scan True s e rest"
  by (induction bs) auto

lemma scan_comment_no_star: "CHR ''*'' \<notin> set l \<Longrightarrow> scan True s e l = ([], True, s, e)"
  by (induction l) auto

lemma strip_loop_at:
  "strip_loop (pre @ cs) (length pre) bc s e acc =
     Some (acc @ fst (scan bc s e cs), snd (scan bc s e cs))"
  by (simp add: strip_loop_scan)

lemma scan_block_comment:
  "list_all (\<lambda>c. c = CHR ''{'' \<or> c = CHR ''}'') bs \<Longrightarrow>
   scan False None e (''/*'' @ bs @ ''*/'' @ rest) = scan False None e rest"
  by (simp add: scan_comment_braces)

lemma scan_line_comment: "scan False None e (''//'' @ rest) = ([], False, None, e)"
  by simp

section \<open>Lines of a text and runs of blank lines\<close>














section \<open>Output lines of an input with a non-blank line\<close>










section \<open>An empty line between two emitted lines\<close>


section \<open>The carried block-comment flag\<close>

lemma scan_comment_open:
  "\<not> (\<exists>u v. line = u @ ''*/'' @ v) \<Longrightarrow> scan True s e line = ([], True, s, e)"
proof (induction line)
  case Nil
  show ?case by simp
next
  case (Cons c cs)
  have 1: "\<not> (c = CHR ''*'' \<and> take 1 cs = ''/'')"
  proof
    assume "c = CHR ''*'' \<and> take 1 cs = ''/''"
    then have "c # cs = [] @ ''*/'' @ tl cs" by (cases cs) auto
    then show False using Cons.prems by blast
  qed
  have 2: "\<not> (\<exists>u v. cs = u @ ''*/'' @ v)"
  proof
    assume "\<exists>u v. cs = u @ ''*/'' @ v"
    then obtain u v where "cs = u @ ''*/'' @ v" by blast
    then have "c # cs = (c # u) @ ''*/'' @ v" by simp
    then show False using Cons.prems by blast
  qed
  have "scan True s e (c # cs) = scan True s e cs" using 1 by auto
  then show ?case using Cons.IH [OF 2] by simp
qed

lemma scan_comment_close:
  "\<not> (\<exists>u v. body = u @ ''*/'' @ v) \<Longrightarrow>
   scan True s e (body @ ''*/'' @ rest) = scan False s e rest"
proof (induction body)
  case Nil
  show ?case by simp
next
  case (Cons c cs)
  have 1: "\<not> (c = CHR ''*'' \<and> take 1 (cs @ ''*/'' @ rest) = ''/'')"
  proof
    assume a: "c = CHR ''*'' \<and> take 1 (cs @ ''*/'' @ rest) = ''/''"
    then have "cs \<noteq> []" by auto
    then have "c # cs = [] @ ''*/'' @ tl cs" using a by (cases cs) auto
    then show False using Cons.prems by blast
  qed
  have 2: "\<not> (\<exists>u v. cs = u @ ''*/'' @ v)"
  proof
    assume "\<exists>u v. cs = u @ ''*/'' @ v"
    then obtain u v where "cs = u @ ''*/'' @ v" by blast
    then have "c # cs = (c # u) @ ''*/'' @ v" by simp
    then show False using Cons.prems by blast
  qed
  have "scan True s e (c # cs @ ''*/'' @ rest) = scan True s e (cs @ ''*/'' @ rest)"
    using 1 by auto
  then show ?case using Cons.IH [OF 2] by simp
qed

lemma flag_step_scanned:
  "scanned st l \<Longrightarrow>
   in_block_comment (step st l)
     = fst (snd (scan (in_block_comment st) None False (rstrip_space_tab l)))
   \<and> in_preset (step st l) = in_preset st"
  by (simp add: scanned_def step_code brace_stats_def Let_def)

lemma flag_step_unscanned:
  "\<not> scanned st l \<Longrightarrow>
   in_block_comment (step st l) = in_block_comment st \<and> indent_level (step st l) = indent_level st"
  by (cases "strip (rstrip_space_tab l) = []"; cases "startswith (strip (rstrip_space_tab l)) ''#''";
      cases "in_preset st") (simp_all add: scanned_def step_cases)

lemma unscanned_foldl:
  "unscanned st ls \<Longrightarrow>
   in_block_comment (foldl step st ls) = in_block_comment st
   \<and> indent_level (foldl step st ls) = indent_level st"
  by (induction ls arbitrary: st) (auto simp: format_step_Some flag_step_unscanned)

section \<open>Comments in a scanned line\<close>



















section \<open>Claims\<close>

text \<open>
  C2.  The concrete scenario of the specification: the text of the seven lines
  \<open>a{\<close>, \<open>b\<close>, \<open>}\<close>, \<open>c\<close>, two empty lines and \<open>d\<close>, each ended by a newline (so the run
  of three newlines after \<open>c\<close>), is formatted to \<open>a{\<close>, \<open>b\<close> indented by two spaces, \<open>}\<close>
  and \<open>c\<close> at column zero, one empty line, \<open>d\<close>, and a single final newline.
\<close>
theorem format_concrete_scenario:
  "format_frag_text ''a{\<newline>b\<newline>}\<newline>c\<newline>\<newline>\<newline>d\<newline>''
     = Some ''a{\<newline>  b\<newline>}\<newline>c\<newline>\<newline>d\<newline>''"
  by code_simp

text \<open>
  C1.  Formatting is idempotent: for every text \<open>t\<close> the formatter returns a text \<open>s\<close>,
  and formatting \<open>s\<close> returns \<open>s\<close> again.
\<close>
theorem format_idempotent:
  "\<exists>s. format_frag_text t = Some s \<and> format_frag_text s = Some s"
proof -
  define ls where "ls = split_nl (normalize_newlines t)"
  define z where "z = collapse_blank_lines (emits init_state ls)"
  have p: "list_all plain z"
    unfolding z_def ls_def by (intro plain_collapse plain_emits split_nl_plain)
  have f: "fixed init_state z"
    unfolding z_def by (intro fixed_collapse fixed_emits)
  have t: "tidy True z" unfolding z_def by (rule tidy_collapse)
  have l: "z = [] \<or> last z \<noteq> []" unfolding z_def by (rule collapse_last)
  have 1: "format_frag_text t = Some (join_nl z @ [LF])"
    by (simp add: format_frag_text_eq z_def ls_def)
  have 2: "format_frag_text (join_nl z @ [LF]) = Some (join_nl z @ [LF])"
    by (simp add: format_frag_text_eq reformat_lines [OF f t l p])
  from 1 2 show ?thesis by blast
qed

text \<open>
  C8.  The formatter returns a text for every input, the scanner returns for every line and
  either value of the carried flag, and the scanner's character loop returns from every
  state of its variables.
\<close>
theorem format_total:
  "(\<exists>s. format_frag_text t = Some s)
   \<and> (\<exists>code bc'. strip_comments_for_braces line bc = Some (code, bc'))
   \<and> (\<exists>r. strip_loop line i bc in_string escape acc = Some r)"
proof (intro conjI)
  show "\<exists>s. format_frag_text t = Some s"
    by (simp add: format_frag_text_eq)
  show "\<exists>code bc'. strip_comments_for_braces line bc = Some (code, bc')"
    by (simp add: strip_comments_scan)
  show "\<exists>r. strip_loop line i bc in_string escape acc = Some r"
    by (simp only: strip_loop_scan) blast
qed

text \<open>
  C10.  The empty text, and every text all of whose characters are whitespace (line breaks
  included), is formatted to the text of one newline.  For every input the output is a
  text followed by one newline, and that text does not itself end with a newline.
\<close>
theorem format_blank_input:
  "format_frag_text [] = Some [LF]
   \<and> (list_all is_space t \<longrightarrow> format_frag_text t = Some [LF])
   \<and> (\<exists>body. format_frag_text u = Some (body @ [LF]) \<and> body @ [LF] \<noteq> []
         \<and> (body = [] \<or> last body \<noteq> LF))"
proof (intro conjI impI)
  have all: "format_frag_text t = Some [LF]" if "list_all is_space t" for t
  proof -
    have "list_all (list_all is_space) (split_nl (normalize_newlines t))"
      using that by (intro split_all_space normalize_all_space)
    then have "collapse_blank_lines (emits init_state (split_nl (normalize_newlines t))) = []"
      by (intro collapse_all_blank emits_all_space)
    then show ?thesis by (simp add: format_frag_text_eq)
  qed
  show "format_frag_text [] = Some [LF]" by (rule all) simp
  show "format_frag_text t = Some [LF]" if "list_all is_space t" using that by (rule all)
  show "\<exists>body. format_frag_text u = Some (body @ [LF]) \<and> body @ [LF] \<noteq> []
         \<and> (body = [] \<or> last body \<noteq> LF)"
  proof -
    define z where "z = collapse_blank_lines (emits init_state (split_nl (normalize_newlines u)))"
    have p: "list_all plain z"
      unfolding z_def by (intro plain_collapse plain_emits split_nl_plain)
    have l: "z = [] \<or> last z \<noteq> []" unfolding z_def by (rule collapse_last)
    have "join_nl z = [] \<or> last (join_nl z) \<noteq> LF"
    proof (cases "z = []")
      case True then show ?thesis by simp
    next
      case False
      then have n: "last z \<noteq> []" using l by simp
      have "last z \<in> set z" using False by simp
      then have "plain (last z)" using p by (simp add: list_all_iff)
      moreover have "last (last z) \<in> set (last z)" using n by (rule last_in_set)
      ultimately have "last (last z) \<noteq> LF" unfolding plain_def by metis
      then show ?thesis using last_join_nl [OF False n] by simp
    qed
    moreover have "format_frag_text u = Some (join_nl z @ [LF])"
      by (simp add: format_frag_text_eq z_def)
    ultimately show ?thesis by blast
  qed
qed

theorem format_blank_input_witness:
  "list_all is_space [CHR '' '', CHR 0x09, CR, LF, LF, CHR 0x0C, CR]
   \<and> format_frag_text [CHR '' '', CHR 0x09, CR, LF, LF, CHR 0x0C, CR] = Some [LF]"
  using format_blank_input [of "[CHR '' '', CHR 0x09, CR, LF, LF, CHR 0x0C, CR]"]
  by (simp add: is_space_def LF_def CR_def)

text \<open>
  C7.  The indentation level starts at 0 and is at least 0 after every prefix of the lines
  of any input.  On a code line (not blank, not a directive, outside a preset block) the line
  is emitted with \<open>max (level - leading_close) 0\<close> indentation units and the level becomes
  \<open>max (level + delta) 0\<close>; both are at least 0.  Every pass of the loop keeps a
  non-negative level non-negative.
\<close>
theorem indent_level_nonneg:
  "indent_level init_state = 0
   \<and> (\<exists>st. format_loop init_state (take n ls) = Some st \<and> 0 \<le> indent_level st)
   \<and> (strip (rstrip_space_tab l) \<noteq> [] \<and> \<not> startswith (strip (rstrip_space_tab l)) ''#''
        \<and> \<not> in_preset st \<longrightarrow>
       (\<exists>delta leading_close nbc.
          line_brace_stats (rstrip_space_tab l) (in_block_comment st)
            = Some (delta, leading_close, nbc)
          \<and> format_step st l = Some (st\<lparr>out := out st @
                [indent_str (max (indent_level st - leading_close) 0)
                 @ lstrip (rstrip_space_tab l)],
               indent_level := max (indent_level st + delta) 0,
               in_block_comment := nbc\<rparr>)
          \<and> 0 \<le> max (indent_level st - leading_close) 0
          \<and> 0 \<le> max (indent_level st + delta) 0))
   \<and> (0 \<le> indent_level st \<longrightarrow>
        (\<exists>st'. format_step st l = Some st' \<and> 0 \<le> indent_level st'))"
proof (intro conjI impI)
  show "indent_level init_state = 0" by (simp add: init_state_def)
  show "\<exists>st. format_loop init_state (take n ls) = Some st \<and> 0 \<le> indent_level st"
    using level_foldl [of init_state "take n ls"]
    by (simp add: format_loop_foldl init_state_def)
  show "\<exists>st'. format_step st l = Some st' \<and> 0 \<le> indent_level st'" if "0 \<le> indent_level st"
    using that by (simp add: format_step_Some level_step)
next
  assume a: "strip (rstrip_space_tab l) \<noteq> [] \<and> \<not> startswith (strip (rstrip_space_tab l)) ''#''
        \<and> \<not> in_preset st"
  obtain delta lc nbc where b: "brace_stats (rstrip_space_tab l) (in_block_comment st) = (delta, lc, nbc)"
    by (cases "brace_stats (rstrip_space_tab l) (in_block_comment st)") auto
  have 1: "line_brace_stats (rstrip_space_tab l) (in_block_comment st) = Some (delta, lc, nbc)"
    by (simp add: line_brace_stats_eq b)
  have 2: "format_step st l = Some (st\<lparr>out := out st @
                [indent_str (max (indent_level st - lc) 0) @ lstrip (rstrip_space_tab l)],
               indent_level := max (indent_level st + delta) 0,
               in_block_comment := nbc\<rparr>)"
    using a by (simp add: format_step_Some step_code b)
  have 3: "0 \<le> max (indent_level st - lc) 0 \<and> 0 \<le> max (indent_level st + delta) 0" by simp
  from 1 2 3 show "\<exists>delta leading_close nbc.
          line_brace_stats (rstrip_space_tab l) (in_block_comment st)
            = Some (delta, leading_close, nbc)
          \<and> format_step st l = Some (st\<lparr>out := out st @
                [indent_str (max (indent_level st - leading_close) 0)
                 @ lstrip (rstrip_space_tab l)],
               indent_level := max (indent_level st + delta) 0,
               in_block_comment := nbc\<rparr>)
          \<and> 0 \<le> max (indent_level st - leading_close) 0
          \<and> 0 \<le> max (indent_level st + delta) 0"
    by blast
qed

theorem indent_level_nonneg_witness:
  "strip (rstrip_space_tab ''}'') \<noteq> [] \<and> \<not> startswith (strip (rstrip_space_tab ''}'')) ''#''
   \<and> \<not> in_preset init_state \<and> 0 \<le> indent_level init_state
   \<and> (\<exists>st. format_loop init_state (take 2 [''}'', ''}'', ''a{'']) = Some st \<and> 0 \<le> indent_level st)
   \<and> line_brace_stats (rstrip_space_tab ''}'') (in_block_comment init_state) = Some (- 1, 1, False)
   \<and> format_step init_state ''}'' = Some (init_state\<lparr>out := [''}'']\<rparr>)"
proof -
  have h: "strip (rstrip_space_tab ''}'') \<noteq> [] \<and> \<not> startswith (strip (rstrip_space_tab ''}'')) ''#''
     \<and> \<not> in_preset init_state"
    by code_simp
  have s: "line_brace_stats (rstrip_space_tab ''}'') (in_block_comment init_state) = Some (- 1, 1, False)"
    by code_simp
  have l: "lstrip (rstrip_space_tab ''}'') = ''}''" by code_simp
  have i: "indent_str 0 = []" by (simp add: indent_str_def)
  show ?thesis
    using indent_level_nonneg [of 2 "[''}'', ''}'', ''a{'']" "''}''" init_state] h s
    by (auto simp: l i init_state_def)
qed

text \<open>
  C9.  A line whose stripped content starts with \<open>#\<close> is emitted stripped, may switch the
  preset mode, and leaves the indentation level and the carried block-comment flag as they
  are; the result does not depend on that flag, also when it says that the line lies inside
  an unterminated block comment.
\<close>
theorem directive_inside_block_comment:
  assumes "startswith (strip (rstrip_space_tab l)) ''#''"
  shows "format_step st l =
      Some (st\<lparr>out := out st @ [strip (rstrip_space_tab l)],
              in_preset :=
                (if startswith (lower (strip (rstrip_space_tab l))) ''#preset '' then True
                 else if lower (strip (rstrip_space_tab l)) = ''#endpreset'' then False
                 else in_preset st)\<rparr>)
    \<and> (\<exists>st'. format_step st l = Some st' \<and> in_block_comment st' = in_block_comment st
          \<and> indent_level st' = indent_level st)
    \<and> (\<exists>st'. format_step (st\<lparr>in_block_comment := False\<rparr>) l = Some st'
          \<and> format_step (st\<lparr>in_block_comment := True\<rparr>) l
              = Some (st'\<lparr>in_block_comment := True\<rparr>))"
proof -
  have n: "strip (rstrip_space_tab l) \<noteq> []" using assms by (rule startswith_nonempty)
  show ?thesis using n assms by (simp add: format_step_Some step_directive)
qed

theorem directive_inside_block_comment_witness:
  "startswith (strip (rstrip_space_tab ''  #Preset x  '')) ''#''
   \<and> format_step \<lparr>out = [''/*''], indent_level = 1, in_preset = False, in_block_comment = True\<rparr>
        ''  #Preset x  ''
      = Some \<lparr>out = [''/*'', ''#Preset x''], indent_level = 1, in_preset = True,
              in_block_comment = True\<rparr>"
proof -
  have h: "startswith (strip (rstrip_space_tab ''  #Preset x  '')) ''#''" by code_simp
  have s: "strip (rstrip_space_tab ''  #Preset x  '') = ''#Preset x''" by code_simp
  have p: "lower ''#Preset x'' = ''#preset x''" by code_simp
  show ?thesis
    using directive_inside_block_comment [OF h,
        of "\<lparr>out = [''/*''], indent_level = 1, in_preset = False, in_block_comment = True\<rparr>"]
    by (simp add: s p startswith_def)
qed







text \<open>
  C4 (as amended).  The scanner returns for every line, also one that ends inside a string
  literal or a block comment, and each call runs the loop from the start of the line with
  the carried block-comment flag, outside any string literal and with no pending escape.
  The formatting loop replaces its flag by the one the scanner returns on a line it scans
  (not blank, not a directive, outside a preset block) and leaves it as it is on every other
  line.  So the scanner call for a line receives the flag returned for the last scanned line
  before it: it starts inside a block comment exactly when that line ended in one.  A line
  scanned inside a block comment is skipped up to the first \<open>*/\<close>, and whole when it has
  none.
\<close>
theorem block_comment_carried:
  "(\<exists>code bc' s e. strip_loop line 0 bc None False [] = Some (code, bc', s, e)
       \<and> strip_comments_for_braces line bc = Some (code, bc'))
   \<and> (scanned st l \<longrightarrow>
       (\<exists>st' code bc'. format_step st l = Some st'
          \<and> strip_comments_for_braces (rstrip_space_tab l) (in_block_comment st) = Some (code, bc')
          \<and> in_block_comment st' = bc'))
   \<and> (\<not> scanned st l \<longrightarrow>
       (\<exists>st'. format_step st l = Some st' \<and> in_block_comment st' = in_block_comment st))
   \<and> (unscanned st mids \<longrightarrow>
       (\<exists>st'. format_loop st mids = Some st' \<and> in_block_comment st' = in_block_comment st))
   \<and> (scanned st l \<and> format_step st l = Some st1 \<and> unscanned st1 mids
        \<and> format_loop st1 mids = Some st2 \<and> scanned st2 l2 \<longrightarrow>
       (\<exists>c1 b1 c2 b2 st3.
          strip_comments_for_braces (rstrip_space_tab l) (in_block_comment st) = Some (c1, b1)
          \<and> in_block_comment st2 = b1
          \<and> strip_comments_for_braces (rstrip_space_tab l2) b1 = Some (c2, b2)
          \<and> format_step st2 l2 = Some st3 \<and> in_block_comment st3 = b2))
   \<and> (\<not> (\<exists>u v. line = u @ ''*/'' @ v) \<longrightarrow>
       strip_comments_for_braces line True = Some ([], True))
   \<and> (\<not> (\<exists>u v. body = u @ ''*/'' @ v) \<longrightarrow>
       strip_comments_for_braces (body @ ''*/'' @ rest) True = strip_comments_for_braces rest False)"
proof (intro conjI impI)
  obtain code bc' s e where r: "scan bc None False line = (code, bc', s, e)"
    by (cases "scan bc None False line") auto
  have "strip_loop line 0 bc None False [] = Some (code, bc', s, e)"
    by (simp add: strip_loop_scan r)
  moreover have "strip_comments_for_braces line bc = Some (code, bc')"
    by (simp add: strip_comments_scan r)
  ultimately show "\<exists>code bc' s e. strip_loop line 0 bc None False [] = Some (code, bc', s, e)
       \<and> strip_comments_for_braces line bc = Some (code, bc')"
    by blast
next
  assume "scanned st l"
  then show "\<exists>st' code bc'. format_step st l = Some st'
          \<and> strip_comments_for_braces (rstrip_space_tab l) (in_block_comment st) = Some (code, bc')
          \<and> in_block_comment st' = bc'"
    by (simp add: format_step_Some strip_comments_scan flag_step_scanned)
next
  assume "\<not> scanned st l"
  then show "\<exists>st'. format_step st l = Some st' \<and> in_block_comment st' = in_block_comment st"
    by (simp add: format_step_Some flag_step_unscanned)
next
  assume "unscanned st mids"
  then show "\<exists>st'. format_loop st mids = Some st' \<and> in_block_comment st' = in_block_comment st"
    by (simp add: format_loop_foldl unscanned_foldl)
next
  assume a: "scanned st l \<and> format_step st l = Some st1 \<and> unscanned st1 mids
        \<and> format_loop st1 mids = Some st2 \<and> scanned st2 l2"
  have s1: "st1 = step st l" using a by (simp add: format_step_Some)
  have s2: "st2 = foldl step st1 mids" using a by (simp add: format_loop_foldl)
  have 1: "strip_comments_for_braces (rstrip_space_tab l) (in_block_comment st)
      = Some (fst (scan (in_block_comment st) None False (rstrip_space_tab l)), in_block_comment st1)"
    using a by (simp add: strip_comments_scan s1 flag_step_scanned)
  have 2: "in_block_comment st2 = in_block_comment st1"
    using a by (simp add: s2 unscanned_foldl)
  have 3: "strip_comments_for_braces (rstrip_space_tab l2) (in_block_comment st1)
      = Some (fst (scan (in_block_comment st2) None False (rstrip_space_tab l2)),
              in_block_comment (step st2 l2))"
    using a by (simp add: strip_comments_scan flag_step_scanned 2)
  have 4: "format_step st2 l2 = Some (step st2 l2)" by (rule format_step_Some)
  from 1 2 3 4 show "\<exists>c1 b1 c2 b2 st3.
          strip_comments_for_braces (rstrip_space_tab l) (in_block_comment st) = Some (c1, b1)
          \<and> in_block_comment st2 = b1
          \<and> strip_comments_for_braces (rstrip_space_tab l2) b1 = Some (c2, b2)
          \<and> format_step st2 l2 = Some st3 \<and> in_block_comment st3 = b2"
    by blast
next
  assume "\<not> (\<exists>u v. line = u @ ''*/'' @ v)"
  then show "strip_comments_for_braces line True = Some ([], True)"
    by (simp add: strip_comments_scan scan_comment_open)
next
  assume "\<not> (\<exists>u v. body = u @ ''*/'' @ v)"
  then have "scan True None False (body @ ''*/'' @ rest) = scan False None False rest"
    by (rule scan_comment_close)
  then show "strip_comments_for_braces (body @ ''*/'' @ rest) True
      = strip_comments_for_braces rest False"
    by (simp only: strip_comments_scan)
qed

theorem block_comment_carried_witness:
  "scanned init_state ''a { /* b''
   \<and> format_step init_state ''a { /* b''
       = Some \<lparr>out = [''a { /* b''], indent_level = 1, in_preset = False, in_block_comment = True\<rparr>
   \<and> unscanned \<lparr>out = [''a { /* b''], indent_level = 1, in_preset = False, in_block_comment = True\<rparr>
         [[], ''#preset x'', ''} in preset {'', ''#endpreset'', ''  '']
   \<and> format_loop \<lparr>out = [''a { /* b''], indent_level = 1, in_preset = False, in_block_comment = True\<rparr>
         [[], ''#preset x'', ''} in preset {'', ''#endpreset'', ''  '']
       = Some \<lparr>out = [''a { /* b'', [], ''#preset x'', ''} in preset {'', ''#endpreset'', []],
               indent_level = 1, in_preset = False, in_block_comment = True\<rparr>
   \<and> scanned \<lparr>out = [''a { /* b'', [], ''#preset x'', ''} in preset {'', ''#endpreset'', []],
               indent_level = 1, in_preset = False, in_block_comment = True\<rparr> ''} c */ d {''
   \<and> strip_comments_for_braces (rstrip_space_tab ''a { /* b'') (in_block_comment init_state)
       = Some (''a { '', True)
   \<and> strip_comments_for_braces (rstrip_space_tab ''} c */ d {'') True = Some ('' d {'', False)
   \<and> (\<exists>c1 b1 c2 b2 st3.
          strip_comments_for_braces (rstrip_space_tab ''a { /* b'') (in_block_comment init_state)
            = Some (c1, b1)
          \<and> in_block_comment \<lparr>out = [''a { /* b'', [], ''#preset x'', ''} in preset {'',
                 ''#endpreset'', []],
               indent_level = 1, in_preset = False, in_block_comment = True\<rparr> = b1
          \<and> strip_comments_for_braces (rstrip_space_tab ''} c */ d {'') b1 = Some (c2, b2)
          \<and> format_step \<lparr>out = [''a { /* b'', [], ''#preset x'', ''} in preset {'',
                 ''#endpreset'', []],
               indent_level = 1, in_preset = False, in_block_comment = True\<rparr> ''} c */ d {''
              = Some st3
          \<and> in_block_comment st3 = b2)
   \<and> \<not> (\<exists>u v. ''}{'' = u @ ''*/'' @ v)
   \<and> strip_comments_for_braces ''}{'' True = Some ([], True)
   \<and> strip_comments_for_braces (''}{'' @ ''*/'' @ ''{'') True = Some (''{'', False)"
proof -
  have h: "scanned init_state ''a { /* b''
     \<and> format_step init_state ''a { /* b''
       = Some \<lparr>out = [''a { /* b''], indent_level = 1, in_preset = False, in_block_comment = True\<rparr>
     \<and> unscanned \<lparr>out = [''a { /* b''], indent_level = 1, in_preset = False, in_block_comment = True\<rparr>
         [[], ''#preset x'', ''} in preset {'', ''#endpreset'', ''  '']
     \<and> format_loop \<lparr>out = [''a { /* b''], indent_level = 1, in_preset = False, in_block_comment = True\<rparr>
         [[], ''#preset x'', ''} in preset {'', ''#endpreset'', ''  '']
       = Some \<lparr>out = [''a { /* b'', [], ''#preset x'', ''} in preset {'', ''#endpreset'', []],
               indent_level = 1, in_preset = False, in_block_comment = True\<rparr>
     \<and> scanned \<lparr>out = [''a { /* b'', [], ''#preset x'', ''} in preset {'', ''#endpreset'', []],
               indent_level = 1, in_preset = False, in_block_comment = True\<rparr> ''} c */ d {''"
    by code_simp
  have e: "strip_comments_for_braces (rstrip_space_tab ''a { /* b'') (in_block_comment init_state)
       = Some (''a { '', True)
     \<and> strip_comments_for_braces (rstrip_space_tab ''} c */ d {'') True = Some ('' d {'', False)
     \<and> strip_comments_for_braces ''{'' False = Some (''{'', False)"
    by code_simp
  have n: "\<not> (\<exists>u v. ''}{'' = u @ ''*/'' @ v)"
    by (auto simp: append_eq_Cons_conv Cons_eq_append_conv)
  note r = block_comment_carried [where st = init_state and l = "''a { /* b''"
      and ?st1.0 = "\<lparr>out = [''a { /* b''], indent_level = 1, in_preset = False,
          in_block_comment = True\<rparr>"
      and mids = "[[], ''#preset x'', ''} in preset {'', ''#endpreset'', ''  '']"
      and ?st2.0 = "\<lparr>out = [''a { /* b'', [], ''#preset x'', ''} in preset {'', ''#endpreset'', []],
          indent_level = 1, in_preset = False, in_block_comment = True\<rparr>"
      and ?l2.0 = "''} c */ d {''" and line = "''}{''" and body = "''}{''" and rest = "''{''"]
  have 4: "\<exists>c1 b1 c2 b2 st3.
          strip_comments_for_braces (rstrip_space_tab ''a { /* b'') (in_block_comment init_state)
            = Some (c1, b1)
          \<and> in_block_comment \<lparr>out = [''a { /* b'', [], ''#preset x'', ''} in preset {'',
                 ''#endpreset'', []],
               indent_level = 1, in_preset = False, in_block_comment = True\<rparr> = b1
          \<and> strip_comments_for_braces (rstrip_space_tab ''} c */ d {'') b1 = Some (c2, b2)
          \<and> format_step \<lparr>out = [''a { /* b'', [], ''#preset x'', ''} in preset {'',
                 ''#endpreset'', []],
               indent_level = 1, in_preset = False, in_block_comment = True\<rparr> ''} c */ d {''
              = Some st3
          \<and> in_block_comment st3 = b2"
    using r h by blast
  have 5: "strip_comments_for_braces ''}{'' True = Some ([], True)" using r n by blast
  have 6: "strip_comments_for_braces (''}{'' @ ''*/'' @ ''{'') True = Some (''{'', False)"
    using r n e by metis
  show ?thesis using h e n 4 5 6 by (intro conjI) simp_all
qed

theorem string_state_not_carried_counterexample:
  "strip_loop ''x = \"abc'' 0 False None False [] = Some (''x = \"abc'', False, Some CHR 0x22, False)
   \<and> strip_comments_for_braces ''d\" // {'' False = Some (''d\" // {'', False)
   \<and> strip_loop ''d\" // {'' 0 False (Some CHR 0x22) False [] = Some (''d\" '', False, None, False)
   \<and> format_frag_text ''x = \"abc\<newline>d\" // {\<newline>e\<newline>''
       = Some ''x = \"abc\<newline>d\" // {\<newline>  e\<newline>''"
  by code_simp




end
